theory Spec2Isabelle
  imports Main "HOL-Library.Sublist" "HOL-Library.List_Lexorder" "HOL-Library.Char_ord"
begin

section \<open>The rotated-log query of cpuTestUtilities.py\<close>

text \<open>
  \<open>ParseRotatedLog\<close> (src/python/cpuTestUtilities.py, lines 152 to 304) reads a log file
  and its rotated predecessors \<open>log.1\<close>, \<open>log.2\<close>, ... (possibly gzipped), pipes each file
  through \<open>cat\<close>/\<open>gzip -d\<close>, \<open>tr\<close>, \<open>awk\<close>, \<open>grep\<close> and \<open>tail\<close>/\<open>head\<close>, parses the
  surviving lines and recurses to the next rotation index.

  The embedding keeps the function's control flow. What the function does beyond returning
  a list is written out as a trace of events: every \<open>os.path.isfile\<close> probe, every
  \<open>open\<close>, every \<open>subprocess.Popen\<close> (by program name) and every \<open>log.exception\<close>.

  Modelling decisions, all about what lies outside the Python source:
  \<^item> the file system is a partial map from file names to lines; a gzipped file is
    represented by the lines it decompresses to, so \<open>gzip -d\<close> and \<open>cat\<close> both pass the
    stored lines on;
  \<^item> what \<open>awk\<close> and \<open>grep\<close> compute is not fixed here: the comparison that
    \<open>awk\<close> makes between \<open>$1\<close> and a value given with \<open>-v\<close> (numeric when both look
    like numbers, by the collating order otherwise, after the escape sequences of the value
    are expanded), and the output of \<open>grep\<close> for an argument list and an input, are
    parameters of the model, and a property that needs more about them says so;
  \<^item> \<open>limit\<close> is a count of lines, a natural number.
\<close>

subsection \<open>Data\<close>

type_synonym filesystem = "string \<rightharpoonup> string list"

datatype io_event =
    IsFile string
  | OpenFile string
  | Popen string
  | LogException string

text \<open>A call of the parser raises, or returns a value that may be Python's \<open>None\<close>.\<close>

datatype 'v outcome = Raised | Returned "'v option"

text \<open>
  The elements of the returned list: the tuple \<open>(cursor, line)\<close> built by the default
  parser, or whatever value a caller's parser produces.
\<close>

datatype 'v entry = Tuple string string | Custom 'v

text \<open>The keyword arguments that every recursive call passes on unchanged.\<close>

record 'v query =
  logfile :: string
  maxrotate :: int
  cursor :: "string option"
  includecursor :: bool
  endcursor :: "string option"
  includeendcursor :: bool
  forward :: bool
  greps :: "string list list"
  keyword :: "string option"
  logparserfn :: "(string \<Rightarrow> string \<Rightarrow> 'v entry outcome) option"

text \<open>
  The two programs of the chain whose behaviour depends on the text they are given:
  \<open>awk_compare pr op f v\<close> is what \<open>awk\<close> finds for \<open>$1 op var\<close> when \<open>$1\<close> is \<open>f\<close> and
  \<open>var\<close> was set by \<open>-v var=v\<close>; \<open>grep pr args ls\<close> is the standard output of \<open>grep\<close>
  started with the arguments \<open>args\<close> on the input lines \<open>ls\<close>.
\<close>

datatype comparison = Op_lt | Op_le | Op_gt | Op_ge

record programs =
  awk_compare :: "comparison \<Rightarrow> string \<Rightarrow> string \<Rightarrow> bool"
  grep :: "string list \<Rightarrow> string list \<Rightarrow> string list"

subsection \<open>Python helpers\<close>

text \<open>\<open>if s:\<close> for an optional string: \<open>None\<close> and the empty string are false.\<close>

definition truthy :: "string option \<Rightarrow> bool" where
  "truthy s = (case s of None \<Rightarrow> False | Some v \<Rightarrow> v \<noteq> [])"

text \<open>\<open>'%d' % n\<close>.\<close>

fun digits :: "nat \<Rightarrow> string" where
  "digits n = (if n < 10 then [''0123456789'' ! n]
               else digits (n div 10) @ [''0123456789'' ! (n mod 10)])"

declare digits.simps [simp del]

definition str_int :: "int \<Rightarrow> string" where
  "str_int i = (if i < 0 then CHR ''-'' # digits (nat (- i)) else digits (nat i))"

text \<open>\<open>str.strip()\<close>: the whitespace of a byte string.\<close>

definition is_space :: "char \<Rightarrow> bool" where
  "is_space c = (c = CHR '' '' \<or> c = CHR 0x09 \<or> c = CHR 0x0A \<or> c = CHR 0x0B
                 \<or> c = CHR 0x0C \<or> c = CHR 0x0D)"

definition strip :: "string \<Rightarrow> string" where
  "strip s = rev (dropWhile is_space (rev (dropWhile is_space s)))"

text \<open>\<open>line.split(',', 1)\<close>: the text before the first comma and the text after it.\<close>

definition before_comma :: "string \<Rightarrow> string" where
  "before_comma s = takeWhile (\<lambda>c. c \<noteq> CHR '','') s"

definition after_comma :: "string \<Rightarrow> string" where
  "after_comma s = tl (dropWhile (\<lambda>c. c \<noteq> CHR '','') s)"

definition has_comma :: "string \<Rightarrow> bool" where
  "has_comma s = (CHR '','' \<in> set s)"

subsection \<open>The file for a rotation index (lines 186 to 191)\<close>

definition isfile :: "filesystem \<Rightarrow> string \<Rightarrow> bool" where
  "isfile fs name = (fs name \<noteq> None)"

definition rotated_name :: "string \<Rightarrow> int \<Rightarrow> string" where
  "rotated_name base rot = base @ ''.'' @ str_int rot"

text \<open>The probes made while choosing the name, and the name chosen.\<close>

definition locate :: "filesystem \<Rightarrow> string \<Rightarrow> int \<Rightarrow> io_event list \<times> string" where
  "locate fs base rot =
     (if rot > 0 then
        (if isfile fs (rotated_name base rot)
         then ([IsFile (rotated_name base rot)], rotated_name base rot)
         else ([IsFile (rotated_name base rot)], rotated_name base rot @ ''.gz''))
      else ([], base))"

subsection \<open>The subprocess chain (lines 215 to 257)\<close>

definition endswith_gz :: "string \<Rightarrow> bool" where
  "endswith_gz name = suffix ''.gz'' name"

definition tr_d_nul :: "string list \<Rightarrow> string list" where
  "tr_d_nul ls = map (filter (\<lambda>c. c \<noteq> CHR 0x00)) ls"

text \<open>
  The list \<open>conditions\<close> of lines 230 to 243, each condition a test on \<open>$1\<close>; it is built
  only under \<open>if cursor:\<close>, with \<open>c\<close> the cursor: \<open>$1<=cursor\<close> or \<open>$1<cursor\<close> backward,
  \<open>$1>=cursor\<close> or \<open>$1>cursor\<close> forward, and the same against \<open>endcursor\<close>, turned around.
\<close>

definition conditions :: "programs \<Rightarrow> 'v query \<Rightarrow> string \<Rightarrow> (string \<Rightarrow> bool) list" where
  "conditions pr q c =
     [if \<not> forward q
      then (if includecursor q then (\<lambda>f. awk_compare pr Op_le f c)
            else (\<lambda>f. awk_compare pr Op_lt f c))
      else (if includecursor q then (\<lambda>f. awk_compare pr Op_ge f c)
            else (\<lambda>f. awk_compare pr Op_gt f c))]
     @ (case endcursor q of
          None \<Rightarrow> []
        | Some e \<Rightarrow>
            if e = [] then []
            else [if \<not> forward q
                  then (if includeendcursor q then (\<lambda>f. awk_compare pr Op_ge f e)
                        else (\<lambda>f. awk_compare pr Op_gt f e))
                  else (if includeendcursor q then (\<lambda>f. awk_compare pr Op_le f e)
                        else (\<lambda>f. awk_compare pr Op_lt f e))])"

text \<open>\<open>awk -F, 'c1 && c2'\<close>: print the lines whose first field meets every condition.\<close>

definition awk :: "(string \<Rightarrow> bool) list \<Rightarrow> string list \<Rightarrow> string list" where
  "awk conds ls = filter (\<lambda>line. list_all (\<lambda>cond. cond (before_comma line)) conds) ls"

definition cursor_stage :: "programs \<Rightarrow> 'v query \<Rightarrow> string list \<Rightarrow> string list" where
  "cursor_stage pr q ls =
     (case cursor q of
        None \<Rightarrow> ls
      | Some c \<Rightarrow> if c = [] then ls else awk (conditions pr q c) ls)"

text \<open>Lines 247 and 248: one \<open>grep\<close> after another, each with its own arguments.\<close>

definition grep_stage :: "programs \<Rightarrow> 'v query \<Rightarrow> string list \<Rightarrow> string list" where
  "grep_stage pr q ls = foldl (\<lambda>acc args. grep pr args acc) ls (greps q)"

text \<open>Lines 250 and 251: \<open>grep -Fi keyword\<close>.\<close>

definition keyword_stage :: "programs \<Rightarrow> 'v query \<Rightarrow> string list \<Rightarrow> string list" where
  "keyword_stage pr q ls =
     (case keyword q of
        None \<Rightarrow> ls
      | Some k \<Rightarrow> if k = [] then ls else grep pr [''-Fi'', k] ls)"

definition tail_n :: "nat \<Rightarrow> string list \<Rightarrow> string list" where
  "tail_n n ls = drop (length ls - n) ls"

definition head_n :: "nat \<Rightarrow> string list \<Rightarrow> string list" where
  "head_n n ls = take n ls"

definition limit_stage :: "'v query \<Rightarrow> nat option \<Rightarrow> string list \<Rightarrow> string list" where
  "limit_stage q limit ls =
     (case limit of
        None \<Rightarrow> ls
      | Some n \<Rightarrow> if \<not> forward q then tail_n n ls else head_n n ls)"

text \<open>The lines that leave the last process of the chain.\<close>

definition filtered :: "programs \<Rightarrow> 'v query \<Rightarrow> string list \<Rightarrow> string list" where
  "filtered pr q content =
     keyword_stage pr q (grep_stage pr q (cursor_stage pr q (tr_d_nul content)))"

definition chain_output ::
  "programs \<Rightarrow> 'v query \<Rightarrow> nat option \<Rightarrow> string list \<Rightarrow> string list" where
  "chain_output pr q limit content = limit_stage q limit (filtered pr q content)"

text \<open>The processes started, in order.\<close>

definition chain_spawned :: "'v query \<Rightarrow> nat option \<Rightarrow> string \<Rightarrow> io_event list" where
  "chain_spawned q limit filename =
     [Popen (if endswith_gz filename then ''gzip'' else ''cat''), Popen ''tr'']
     @ (if truthy (cursor q) then [Popen ''awk''] else [])
     @ map (\<lambda>g. Popen ''grep'') (greps q)
     @ (if truthy (keyword q) then [Popen ''grep''] else [])
     @ (case limit of
          None \<Rightarrow> []
        | Some n \<Rightarrow> [Popen (if \<not> forward q then ''tail'' else ''head'')])"

subsection \<open>Parsing the lines (lines 263 to 282)\<close>

text \<open>Lines 181 to 183: the parser in force.\<close>

definition default_logparserfn :: "string \<Rightarrow> string \<Rightarrow> 'v entry outcome" where
  "default_logparserfn c line = Returned (Some (Tuple c line))"

definition parser :: "'v query \<Rightarrow> string \<Rightarrow> string \<Rightarrow> 'v entry outcome" where
  "parser q = (case logparserfn q of None \<Rightarrow> default_logparserfn | Some f \<Rightarrow> f)"

text \<open>
  Lines 270 to 275 for one stripped, non-empty line: \<open>parts[1]\<close> raises IndexError when
  the line has no comma; every exception is caught and logged, and leaves \<open>entry\<close> at
  \<open>None\<close>.
\<close>

definition parse_line ::
  "(string \<Rightarrow> string \<Rightarrow> 'v entry outcome) \<Rightarrow> string \<Rightarrow> io_event list \<times> 'v entry option" where
  "parse_line p line =
     (if \<not> has_comma line then ([LogException (take 200 line)], None)
      else case p (strip (before_comma line)) (strip (after_comma line)) of
             Raised \<Rightarrow> ([LogException (take 200 line)], None)
           | Returned r \<Rightarrow> ([], r))"

text \<open>
  The loop of lines 265 to 282 over the reversed lines: the events logged, the entries
  appended and the limit left.
\<close>

fun collect ::
  "(string \<Rightarrow> string \<Rightarrow> 'v entry outcome) \<Rightarrow> nat option \<Rightarrow> string list
     \<Rightarrow> io_event list \<times> 'v entry list \<times> nat option" where
  "collect p limit [] = ([], [], limit)"
| "collect p limit (raw # rest) =
     (if strip raw = [] then collect p limit rest
      else case parse_line p (strip raw) of
             (logged, None) \<Rightarrow>
               (case collect p limit rest of (io, es, l) \<Rightarrow> (logged @ io, es, l))
           | (logged, Some e) \<Rightarrow>
               (case limit of
                  None \<Rightarrow> (case collect p None rest of (io, es, l) \<Rightarrow> (logged @ io, e # es, l))
                | Some n \<Rightarrow>
                    if n - 1 \<le> 0 then (logged, [e], Some (n - 1))
                    else (case collect p (Some (n - 1)) rest of
                            (io, es, l) \<Rightarrow> (logged @ io, e # es, l))))"

text \<open>
  Lines 215 to 282 for a file that exists: the text of the last process is split at the
  newlines, which leaves an empty string after the last line.
\<close>

definition read_file ::
  "programs \<Rightarrow> 'v query \<Rightarrow> nat option \<Rightarrow> string \<Rightarrow> string list
     \<Rightarrow> io_event list \<times> 'v entry list \<times> nat option" where
  "read_file pr q limit filename content =
     (case collect (parser q) limit (rev (chain_output pr q limit content @ [[]])) of
        (logged, es, l) \<Rightarrow> (OpenFile filename # chain_spawned q limit filename @ logged, es, l))"

subsection \<open>The recursion over the rotation indices\<close>

definition next_rotate :: "'v query \<Rightarrow> int \<Rightarrow> int" where
  "next_rotate q rot = (if forward q then rot - 1 else rot + 1)"

function ParseRotatedLog_at ::
  "programs \<Rightarrow> filesystem \<Rightarrow> 'v query \<Rightarrow> int \<Rightarrow> nat option \<Rightarrow> io_event list \<times> 'v entry list" where
  "ParseRotatedLog_at pr fs q rot limit =
     (if rot < 0 \<or> rot > maxrotate q then ([], [])
      else
        case locate fs (logfile q) rot of (probes, filename) \<Rightarrow>
          (case fs filename of
             None \<Rightarrow>
               if \<not> forward q \<and> rot > 0 then (probes @ [IsFile filename], [])
               else
                 (case ParseRotatedLog_at pr fs q (next_rotate q rot) limit of
                    (io, rotatedlog) \<Rightarrow> (probes @ [IsFile filename] @ io, rotatedlog))
           | Some content \<Rightarrow>
               (case read_file pr q limit filename content of
                  (events, entries, limit') \<Rightarrow>
                    if limit' = None \<or> 0 < the limit' then
                      (case ParseRotatedLog_at pr fs q (next_rotate q rot) limit' of
                         (io, rotatedlog) \<Rightarrow>
                           (probes @ [IsFile filename] @ events @ io,
                            if forward q then rotatedlog @ entries else entries @ rotatedlog))
                    else (probes @ [IsFile filename] @ events, entries))))"
  by pat_completeness auto
termination
  by (relation "measure (\<lambda>(pr, fs, q, rot, limit).
        if forward q then nat (rot + 1) else nat (maxrotate q + 1 - rot))")
     (auto simp: next_rotate_def)

declare ParseRotatedLog_at.simps [simp del]

text \<open>Lines 171 to 177: where the walk starts when \<open>rotate\<close> is not passed in.\<close>

definition ParseRotatedLog ::
  "programs \<Rightarrow> filesystem \<Rightarrow> 'v query \<Rightarrow> int option \<Rightarrow> nat option \<Rightarrow> io_event list \<times> 'v entry list" where
  "ParseRotatedLog pr fs q rot limit =
     ParseRotatedLog_at pr fs q
       (case rot of None \<Rightarrow> (if forward q then maxrotate q else 0) | Some r \<Rightarrow> r) limit"

definition io_of :: "io_event list \<times> 'v entry list \<Rightarrow> io_event list" where
  "io_of r = fst r"

definition entries_of :: "io_event list \<times> 'v entry list \<Rightarrow> 'v entry list" where
  "entries_of r = snd r"

subsection \<open>Projections used in the proofs\<close>

text \<open>What one line of the loop contributes: nothing, or the entry appended.\<close>

definition entry_of :: "(string \<Rightarrow> string \<Rightarrow> 'v entry outcome) \<Rightarrow> string \<Rightarrow> 'v entry option" where
  "entry_of p raw = (if strip raw = [] then None else snd (parse_line p (strip raw)))"

text \<open>The entries a file contributes, and the limit it leaves for the next file.\<close>

definition file_entries :: "programs \<Rightarrow> 'v query \<Rightarrow> nat option \<Rightarrow> string list \<Rightarrow> 'v entry list" where
  "file_entries pr q limit content =
     List.map_filter (entry_of (parser q)) (rev (chain_output pr q limit content))"

definition limit_left :: "programs \<Rightarrow> 'v query \<Rightarrow> nat option \<Rightarrow> string list \<Rightarrow> nat option" where
  "limit_left pr q limit content =
     map_option (\<lambda>n. n - length (file_entries pr q limit content)) limit"

text \<open>The content of the file chosen for a rotation index, if that file exists.\<close>

definition located :: "filesystem \<Rightarrow> 'v query \<Rightarrow> int \<Rightarrow> string list option" where
  "located fs q rot = fs (snd (locate fs (logfile q) rot))"

text \<open>Line 285: \<open>limit is None or limit > 0\<close>.\<close>

definition goes_on :: "nat option \<Rightarrow> bool" where
  "goes_on l = (case l of None \<Rightarrow> True | Some n \<Rightarrow> 0 < n)"

text \<open>The token and the payload that the parser receives for a line.\<close>

definition token :: "string \<Rightarrow> string" where
  "token raw = strip (before_comma (strip raw))"

definition payload :: "string \<Rightarrow> string" where
  "payload raw = strip (after_comma (strip raw))"

text \<open>The table of section 4.3 of the specification, for a cursor \<open>c\<close> and a token \<open>t\<close>.\<close>

definition within_cursor :: "'v query \<Rightarrow> string \<Rightarrow> string \<Rightarrow> bool" where
  "within_cursor q c t =
     (if forward q then (if includecursor q then c \<le> t else c < t)
      else (if includecursor q then t \<le> c else t < c))"

definition within_endcursor :: "'v query \<Rightarrow> string \<Rightarrow> string \<Rightarrow> bool" where
  "within_endcursor q e t =
     (if forward q then (if includeendcursor q then t \<le> e else t < e)
      else (if includeendcursor q then e \<le> t else e < t))"

subsection \<open>Notions used in the statements\<close>

text \<open>The comparison of two strings byte by byte, and of two numbers.\<close>

definition text_compare :: "comparison \<Rightarrow> string \<Rightarrow> string \<Rightarrow> bool" where
  "text_compare op a b =
     (case op of Op_lt \<Rightarrow> a < b | Op_le \<Rightarrow> a \<le> b | Op_gt \<Rightarrow> b < a | Op_ge \<Rightarrow> b \<le> a)"

definition number_compare :: "comparison \<Rightarrow> nat \<Rightarrow> nat \<Rightarrow> bool" where
  "number_compare op a b =
     (case op of Op_lt \<Rightarrow> a < b | Op_le \<Rightarrow> a \<le> b | Op_gt \<Rightarrow> b < a | Op_ge \<Rightarrow> b \<le> a)"

text \<open>
  \<open>awk\<close> compares every field with the value \<open>v\<close> as text. That is so for a value that
  does not look like a number and holds no backslash, the timestamp of the docstring for
  one, when the collating order is that of the bytes.
\<close>

definition compared_as_text :: "programs \<Rightarrow> string \<Rightarrow> bool" where
  "compared_as_text pr v = (\<forall>op f. awk_compare pr op f v = text_compare op f v)"

text \<open>Every \<open>grep\<close> that the query starts prints some of its input lines, in their order.\<close>

definition grep_calls :: "'v query \<Rightarrow> string list list" where
  "grep_calls q =
     greps q @ (case keyword q of None \<Rightarrow> [] | Some k \<Rightarrow> if k = [] then [] else [[''-Fi'', k]])"

definition grep_selects :: "programs \<Rightarrow> 'v query \<Rightarrow> bool" where
  "grep_selects pr q = (\<forall>args \<in> set (grep_calls q). \<forall>ls. subseq (grep pr args ls) ls)"

text \<open>A line from which the loop takes a token and a payload.\<close>

definition carries_pair :: "string \<Rightarrow> bool" where
  "carries_pair raw = (strip raw \<noteq> [] \<and> has_comma (strip raw))"

text \<open>The lines of the file of a rotation index, null bytes removed; none if it is missing.\<close>

definition lines_at :: "filesystem \<Rightarrow> 'v query \<Rightarrow> int \<Rightarrow> string list" where
  "lines_at fs q i = (case located fs q i of None \<Rightarrow> [] | Some content \<Rightarrow> tr_d_nul content)"

text \<open>
  The tokens of all the files from index \<open>lo\<close> to index \<open>hi\<close>, the file of the lowest index
  first and every file read from its last line to its first.
\<close>

definition tokens_between :: "filesystem \<Rightarrow> 'v query \<Rightarrow> int \<Rightarrow> int \<Rightarrow> string list" where
  "tokens_between fs q lo hi =
     map token (filter carries_pair (concat (map (\<lambda>i. rev (lines_at fs q i)) [lo..hi])))"

text \<open>
  The log set is in chronological order: read in that way, from the last line of the live
  file to the first line of the oldest file, the tokens never grow.
\<close>

definition chronological :: "filesystem \<Rightarrow> 'v query \<Rightarrow> bool" where
  "chronological fs q = sorted_wrt (\<lambda>a b. b \<le> a) (tokens_between fs q 0 (maxrotate q))"


text \<open>No file exists beyond a missing rotation index.\<close>

definition contiguous :: "filesystem \<Rightarrow> 'v query \<Rightarrow> bool" where
  "contiguous fs q =
     list_all (\<lambda>i. located fs q i \<noteq> None
                    \<or> list_all (\<lambda>j. located fs q j = None) [i..maxrotate q])
       [1..maxrotate q]"

text \<open>The same window, walked the other way.\<close>

definition mirror :: "'v query \<Rightarrow> 'v query" where
  "mirror q = q\<lparr>cursor := endcursor q, includecursor := includeendcursor q,
                endcursor := cursor q, includeendcursor := includecursor q,
                forward := \<not> forward q\<rparr>"

text \<open>The cursor of the tuple that the default parser builds.\<close>

definition tuple_cursor :: "'v entry \<Rightarrow> string" where
  "tuple_cursor e = (case e of Tuple c line \<Rightarrow> c | Custom v \<Rightarrow> [])"

subsection \<open>Example inputs\<close>

text \<open>
  One choice of programs for the examples. Of \<open>awk\<close> it knows that two plain decimal
  integers are compared as numbers and that a text that does not look like a number is
  compared as text; the examples give it nothing else. Of \<open>grep\<close> it knows the call
  \<open>grep -Fi keyword\<close> with a keyword that is no option; the examples start no \<open>grep\<close>.
\<close>

definition plain_integer :: "string \<Rightarrow> bool" where
  "plain_integer s = (s \<noteq> [] \<and> list_all (\<lambda>c. CHR ''0'' \<le> c \<and> c \<le> CHR ''9'') s)"

definition integer_value :: "string \<Rightarrow> nat" where
  "integer_value s = foldl (\<lambda>n c. 10 * n + (of_char c - 48)) 0 s"

definition lower :: "char \<Rightarrow> char" where
  "lower c = (if CHR ''A'' \<le> c \<and> c \<le> CHR ''Z'' then char_of (of_char c + (32::nat)) else c)"

fun contains :: "string \<Rightarrow> string \<Rightarrow> bool" where
  "contains pat [] = (pat = [])"
| "contains pat (c # s) = (prefix pat (c # s) \<or> contains pat s)"

definition example_programs :: programs where
  "example_programs =
     \<lparr>awk_compare = (\<lambda>op f v. if plain_integer f \<and> plain_integer v
                              then number_compare op (integer_value f) (integer_value v)
                              else text_compare op f v),
      grep = (\<lambda>args ls. case args of
                [flag, k] \<Rightarrow>
                  if flag = ''-Fi'' \<and> k \<noteq> [] \<and> hd k \<noteq> CHR ''-''
                  then filter (\<lambda>line. contains (map lower k) (map lower line)) ls
                  else []
              | _ \<Rightarrow> [])\<rparr>"

definition example_query :: "unit query" where
  "example_query =
     \<lparr>logfile = ''log'', maxrotate = 5, cursor = None, includecursor = False,
      endcursor = None, includeendcursor = False, forward = False, greps = [],
      keyword = None, logparserfn = None\<rparr>"

definition table_query :: "unit query" where
  "table_query = example_query\<lparr>cursor := Some ''b'', includecursor := True,
                                endcursor := Some ''a'', includeendcursor := False\<rparr>"

definition numeric_query :: "unit query" where
  "numeric_query = example_query\<lparr>cursor := Some ''10'', includecursor := True\<rparr>"

definition deaf_parser :: "string \<Rightarrow> string \<Rightarrow> unit entry outcome" where
  "deaf_parser c line = (if c = ''b'' then Returned None else Returned (Some (Tuple c line)))"

definition endcursor_only_query :: "unit query" where
  "endcursor_only_query = example_query\<lparr>endcursor := Some ''b''\<rparr>"

definition gap_fs :: filesystem where
  "gap_fs = [''log'' \<mapsto> [''c,3'', ''d,4''], ''log.1'' \<mapsto> [''a,1'', ''b,2''],
             ''log.3'' \<mapsto> [''x,0'']]"

definition forward_query :: "unit query" where
  "forward_query = example_query\<lparr>forward := True\<rparr>"

definition ten_line_fs :: filesystem where
  "ten_line_fs = [''log'' \<mapsto> [''a,1'', ''b,2'', ''c,3'', ''d,4'', ''no separator here'',
                                   ''e,5'', ''f,6'', ''g,7'', ''h,8'', ''i,9'']]"

definition misordered_query :: "unit query" where
  "misordered_query = example_query\<lparr>cursor := Some ''a'', endcursor := Some ''c''\<rparr>"


definition two_file_fs :: filesystem where
  "two_file_fs = [''log'' \<mapsto> [''c,3'', ''d,4''], ''log.1'' \<mapsto> [''a,1'', ''b,2'']]"

definition window_query :: "unit query" where
  "window_query = example_query\<lparr>maxrotate := 2, cursor := Some ''b'', includecursor := True,
                                 endcursor := Some ''d'', includeendcursor := False,
                                 forward := True\<rparr>"

definition start_rotate :: "'v query \<Rightarrow> int" where
  "start_rotate q = (if forward q then maxrotate q else 0)"

definition file_tokens :: "filesystem \<Rightarrow> 'v query \<Rightarrow> int \<Rightarrow> string list" where
  "file_tokens fs q i = map token (filter carries_pair (rev (lines_at fs q i)))"

definition entries_in :: "programs \<Rightarrow> filesystem \<Rightarrow> 'v query \<Rightarrow> int \<Rightarrow> 'v entry list" where
  "entries_in pr fs q i =
     (case located fs q i of None \<Rightarrow> [] | Some content \<Rightarrow> file_entries pr q None content)"

section \<open>Properties\<close>

subsection \<open>The loop over the lines\<close>

lemma collect_skip:
  "entry_of p raw = None \<Longrightarrow> snd (collect p limit (raw # rest)) = snd (collect p limit rest)"
  by (auto simp: entry_of_def split: prod.splits option.splits if_splits)

lemma collect_keep_None:
  "entry_of p raw = Some e \<Longrightarrow>
   snd (collect p None (raw # rest)) =
     (e # fst (snd (collect p None rest)), snd (snd (collect p None rest)))"
  by (auto simp: entry_of_def split: prod.splits option.splits if_splits)

lemma collect_keep_Some:
  "entry_of p raw = Some e \<Longrightarrow>
   snd (collect p (Some n) (raw # rest)) =
     (if n \<le> 1 then ([e], Some (n - 1))
      else (e # fst (snd (collect p (Some (n - 1)) rest)),
            snd (snd (collect p (Some (n - 1)) rest))))"
  by (auto simp: entry_of_def split: prod.splits option.splits if_splits)

lemma collect_entries:
  "fst (snd (collect p limit ls)) =
     (case limit of None \<Rightarrow> List.map_filter (entry_of p) ls
      | Some n \<Rightarrow> take (max n 1) (List.map_filter (entry_of p) ls))"
proof (induction ls arbitrary: limit)
  case Nil
  then show ?case by (simp split: option.splits)
next
  case (Cons raw rest)
  show ?case
  proof (cases "entry_of p raw")
    case None
    then show ?thesis using Cons [of limit]
      by (cases limit) (simp_all add: collect_skip map_filter_simps del: collect.simps)
  next
    case (Some e)
    show ?thesis
    proof (cases limit)
      case None
      then show ?thesis using Some Cons [of None]
        by (simp add: collect_keep_None del: collect.simps)
    next
      case (Some n)
      show ?thesis
      proof (cases "n \<le> 1")
        case True
        then show ?thesis using Some \<open>entry_of p raw = Some e\<close>
          by (simp add: collect_keep_Some max_def del: collect.simps)
      next
        case False
        then have "max n 1 = Suc (n - 1)" "max (n - 1) 1 = n - 1" by simp_all
        then show ?thesis
          using False Some \<open>entry_of p raw = Some e\<close> Cons [of "Some (n - 1)"]
          by (simp add: collect_keep_Some take_Cons' del: collect.simps)
      qed
    qed
  qed
qed

lemma collect_limit:
  "snd (snd (collect p limit ls)) =
     map_option (\<lambda>n. n - length (fst (snd (collect p limit ls)))) limit"
proof (induction ls arbitrary: limit)
  case Nil
  then show ?case by (cases limit) simp_all
next
  case (Cons raw rest)
  show ?case
  proof (cases "entry_of p raw")
    case None
    then show ?thesis using Cons [of limit]
      by (simp add: collect_skip map_filter_simps del: collect.simps)
  next
    case (Some e)
    show ?thesis
    proof (cases limit)
      case None
      then show ?thesis using Some
        by (simp add: collect_keep_None Cons [of None] del: collect.simps)
    next
      case (Some n)
      then show ?thesis using \<open>entry_of p raw = Some e\<close> Cons [of "Some (n - 1)"]
        by (auto simp: collect_keep_Some simp del: collect.simps)
    qed
  qed
qed

subsection \<open>One file\<close>

lemma length_map_filter_le: "length (List.map_filter f xs) \<le> length xs"
  by (simp add: List.map_filter_def)

lemma length_chain_output: "length (chain_output pr q (Some n) content) \<le> n"
  by (auto simp: chain_output_def limit_stage_def tail_n_def head_n_def)

lemma strip_Nil: "strip [] = []"
  by (simp add: strip_def)

lemma read_file_entries:
  "fst (snd (read_file pr q limit filename content)) = file_entries pr q limit content"
proof -
  have "fst (snd (read_file pr q limit filename content)) =
        fst (snd (collect (parser q) limit ([] # rev (chain_output pr q limit content))))"
    by (simp add: read_file_def split: prod.splits)
  also have "\<dots> = fst (snd (collect (parser q) limit (rev (chain_output pr q limit content))))"
    by (simp add: strip_Nil)
  also have "\<dots> = file_entries pr q limit content"
  proof (cases limit)
    case None
    then show ?thesis by (simp add: collect_entries file_entries_def)
  next
    case (Some n)
    have "length (List.map_filter (entry_of (parser q)) (rev (chain_output pr q (Some n) content))) \<le> n"
      using length_map_filter_le [of "entry_of (parser q)" "rev (chain_output pr q (Some n) content)"]
            length_chain_output [of pr q n content] by simp
    then show ?thesis using Some by (simp add: collect_entries file_entries_def)
  qed
  finally show ?thesis .
qed

lemma read_file_limit:
  "snd (snd (read_file pr q limit filename content)) = limit_left pr q limit content"
proof -
  let ?ls = "rev (chain_output pr q limit content)"
  have "snd (read_file pr q limit filename content) = snd (collect (parser q) limit ([] # ?ls))"
    by (simp add: read_file_def split: prod.splits)
  also have "\<dots> = snd (collect (parser q) limit ?ls)"
    by (simp add: strip_Nil)
  finally have eq: "snd (read_file pr q limit filename content) = snd (collect (parser q) limit ?ls)" .
  have "snd (snd (collect (parser q) limit ?ls)) =
        map_option (\<lambda>n. n - length (fst (snd (collect (parser q) limit ?ls)))) limit"
    by (rule collect_limit)
  then show ?thesis
    using eq read_file_entries [of pr q limit filename content] by (simp add: limit_left_def)
qed

subsection \<open>The recursion, seen through the entries\<close>

lemma goes_on_iff: "goes_on l \<longleftrightarrow> (l = None \<or> 0 < the l)"
  by (cases l) (simp_all add: goes_on_def)

lemma entries_at:
  "entries_of (ParseRotatedLog_at pr fs q rot limit) =
     (if rot < 0 \<or> rot > maxrotate q then []
      else case located fs q rot of
        None \<Rightarrow>
          if \<not> forward q \<and> rot > 0 then []
          else entries_of (ParseRotatedLog_at pr fs q (next_rotate q rot) limit)
      | Some content \<Rightarrow>
          if goes_on (limit_left pr q limit content) then
            (if forward q
             then entries_of (ParseRotatedLog_at pr fs q (next_rotate q rot) (limit_left pr q limit content))
                  @ file_entries pr q limit content
             else file_entries pr q limit content
                  @ entries_of (ParseRotatedLog_at pr fs q (next_rotate q rot) (limit_left pr q limit content)))
          else file_entries pr q limit content)"
proof -
  obtain probes filename where loc: "locate fs (logfile q) rot = (probes, filename)"
    by (cases "locate fs (logfile q) rot")
  show ?thesis
  proof (cases "fs filename")
    case None
    then show ?thesis using loc
      by (subst ParseRotatedLog_at.simps)
         (simp add: located_def entries_of_def split: prod.splits)
  next
    case (Some content)
    obtain events es l where rf: "read_file pr q limit filename content = (events, es, l)"
      by (cases "read_file pr q limit filename content")
    have es: "es = file_entries pr q limit content"
      using read_file_entries [of pr q limit filename content] rf by simp
    have l: "l = limit_left pr q limit content"
      using read_file_limit [of pr q limit filename content] rf by simp
    show ?thesis using loc Some rf
      by (subst ParseRotatedLog_at.simps)
         (simp add: located_def entries_of_def goes_on_iff es [symmetric] l [symmetric]
               split: prod.splits)
  qed
qed

lemma walk_induct [case_names step]:
  assumes step: "\<And>pr fs q rot limit.
      (\<lbrakk>\<not> (rot < 0 \<or> rot > maxrotate q); located fs q rot = None; \<not> (\<not> forward q \<and> rot > 0)\<rbrakk>
         \<Longrightarrow> P pr fs q (next_rotate q rot) limit) \<Longrightarrow>
      (\<And>content. \<lbrakk>\<not> (rot < 0 \<or> rot > maxrotate q); located fs q rot = Some content;
                   goes_on (limit_left pr q limit content)\<rbrakk>
         \<Longrightarrow> P pr fs q (next_rotate q rot) (limit_left pr q limit content)) \<Longrightarrow>
      P pr fs q rot limit"
  shows "P pr fs q rot limit"
proof (induction pr fs q rot limit rule: ParseRotatedLog_at.induct)
  case (1 pr fs q rot limit)
  show ?case
  proof (rule step)
    assume a: "\<not> (rot < 0 \<or> rot > maxrotate q)" "located fs q rot = None"
              "\<not> (\<not> forward q \<and> rot > 0)"
    show "P pr fs q (next_rotate q rot) limit"
      using a "1.IH"(1) [of "fst (locate fs (logfile q) rot)" "snd (locate fs (logfile q) rot)"]
      by (simp add: located_def)
  next
    fix content
    assume a: "\<not> (rot < 0 \<or> rot > maxrotate q)" "located fs q rot = Some content"
              "goes_on (limit_left pr q limit content)"
    let ?f = "snd (locate fs (logfile q) rot)"
    obtain events es l where rf: "read_file pr q limit ?f content = (events, es, l)"
      by (cases "read_file pr q limit ?f content")
    have l: "l = limit_left pr q limit content"
      using read_file_limit [of pr q limit ?f content] rf by simp
    show "P pr fs q (next_rotate q rot) (limit_left pr q limit content)"
      using a rf l
        "1.IH"(2) [of "fst (locate fs (logfile q) rot)" ?f content events "(es, l)" es l]
      by (simp add: located_def goes_on_iff)
  qed
qed

section \<open>The claims\<close>

text \<open>
  C10. A non-empty line with a comma for which the parser returns \<open>None\<close> leaves the loop
  as if the line were not there: nothing is logged, nothing is appended and the limit is
  not touched. Over any lines, the limit left is the limit given less the number of entries
  appended.
\<close>

theorem none_not_counted:
  assumes "strip raw \<noteq> []" and "has_comma (strip raw)"
    and "p (token raw) (payload raw) = Returned None"
  shows "collect p limit (raw # rest) = collect p limit rest \<and>
         snd (snd (collect p limit ls)) =
           map_option (\<lambda>n. n - length (fst (snd (collect p limit ls)))) limit"
  using assms collect_limit [of p limit ls]
  by (simp add: parse_line_def token_def payload_def)

theorem none_not_counted_witness:
  "collect deaf_parser (Some 1) [''b,2'', ''a,1''] = ([], [Tuple ''a'' ''1''], Some 0) \<and>
   collect deaf_parser (Some 1) [''a,1''] = ([], [Tuple ''a'' ''1''], Some 0)"
  using none_not_counted [of "''b,2''" deaf_parser "Some 1" "[''a,1'']" "[]"]
  by (simp add: deaf_parser_def token_def payload_def strip_def is_space_def has_comma_def
        before_comma_def after_comma_def parse_line_def)

text \<open>
  C1. A backward query with no cursor and the end cursor \<open>b\<close> over a file holding the
  tokens \<open>a\<close> and \<open>c\<close> returns both entries, the one with token \<open>a\<close> included, although
  \<open>a\<close> lies beyond the end cursor: the end cursor is tested only inside \<open>if cursor:\<close>. No
  \<open>awk\<close> and no \<open>grep\<close> is started, so this holds whatever these programs do.
\<close>

theorem endcursor_ignored_without_cursor:
  "entries_of (ParseRotatedLog pr [''log'' \<mapsto> [''a,1'', ''c,2'']] endcursor_only_query None None)
     = [Tuple ''c'' ''2'', Tuple ''a'' ''1'']"
  by code_simp

lemma at_missing_backward:
  assumes "\<not> forward q" "0 < rot" "rot \<le> maxrotate q"
    and "fs (rotated_name (logfile q) rot) = None"
    and "fs (rotated_name (logfile q) rot @ ''.gz'') = None"
  shows "ParseRotatedLog_at pr fs q rot limit =
           ([IsFile (rotated_name (logfile q) rot),
             IsFile (rotated_name (logfile q) rot @ ''.gz'')], [])"
  using assms by (subst ParseRotatedLog_at.simps) (simp add: locate_def isfile_def)

lemma at_missing_forward:
  assumes "forward q" "0 \<le> rot" "rot \<le> maxrotate q"
    and "fs (snd (locate fs (logfile q) rot)) = None"
  shows "ParseRotatedLog_at pr fs q rot limit =
           (fst (locate fs (logfile q) rot) @ [IsFile (snd (locate fs (logfile q) rot))]
              @ io_of (ParseRotatedLog_at pr fs q (rot - 1) limit),
            entries_of (ParseRotatedLog_at pr fs q (rot - 1) limit))"
proof -
  obtain probes filename where loc: "locate fs (logfile q) rot = (probes, filename)"
    by (cases "locate fs (logfile q) rot")
  obtain io rotatedlog where
    next_call: "ParseRotatedLog_at pr fs q (rot - 1) limit = (io, rotatedlog)"
    by (cases "ParseRotatedLog_at pr fs q (rot - 1) limit")
  have "fs filename = None" using assms(4) loc by simp
  then show ?thesis using assms(1-3) loc next_call
    by (subst ParseRotatedLog_at.simps) (simp add: next_rotate_def io_of_def entries_of_def)
qed

text \<open>
  C4. A backward walk that finds neither \<open>log.N\<close> nor \<open>log.N.gz\<close> for an index
  \<open>N > 0\<close> within range returns the empty list after these two probes and nothing else:
  no further index is probed. A forward walk that finds no file for an index passes the
  call on to the index below, adding only its probes. With \<open>log\<close>, \<open>log.1\<close> and \<open>log.3\<close>
  present, \<open>log.2\<close> missing and \<open>maxrotate = 5\<close>, the backward query returns the entries of
  \<open>log\<close> and \<open>log.1\<close> and never probes \<open>log.3\<close>.
\<close>

theorem missing_rotation:
  "(\<not> forward q \<and> 0 < rot \<and> rot \<le> maxrotate q
      \<and> fs (rotated_name (logfile q) rot) = None
      \<and> fs (rotated_name (logfile q) rot @ ''.gz'') = None
    \<longrightarrow> ParseRotatedLog_at pr fs q rot limit =
          ([IsFile (rotated_name (logfile q) rot),
            IsFile (rotated_name (logfile q) rot @ ''.gz'')], []))
   \<and> (forward q \<and> 0 \<le> rot \<and> rot \<le> maxrotate q
        \<and> fs (snd (locate fs (logfile q) rot)) = None
      \<longrightarrow> ParseRotatedLog_at pr fs q rot limit =
            (fst (locate fs (logfile q) rot) @ [IsFile (snd (locate fs (logfile q) rot))]
               @ io_of (ParseRotatedLog_at pr fs q (rot - 1) limit),
             entries_of (ParseRotatedLog_at pr fs q (rot - 1) limit)))
   \<and> ParseRotatedLog pr gap_fs example_query None None =
       ([IsFile ''log'', OpenFile ''log'', Popen ''cat'', Popen ''tr'',
         IsFile ''log.1'', IsFile ''log.1'', OpenFile ''log.1'', Popen ''cat'', Popen ''tr'',
         IsFile ''log.2'', IsFile ''log.2.gz''],
        [Tuple ''d'' ''4'', Tuple ''c'' ''3'', Tuple ''b'' ''2'', Tuple ''a'' ''1''])"
proof (intro conjI impI)
  show "ParseRotatedLog pr gap_fs example_query None None =
       ([IsFile ''log'', OpenFile ''log'', Popen ''cat'', Popen ''tr'',
         IsFile ''log.1'', IsFile ''log.1'', OpenFile ''log.1'', Popen ''cat'', Popen ''tr'',
         IsFile ''log.2'', IsFile ''log.2.gz''],
        [Tuple ''d'' ''4'', Tuple ''c'' ''3'', Tuple ''b'' ''2'', Tuple ''a'' ''1''])"
    by code_simp
qed (simp_all add: at_missing_backward at_missing_forward)

theorem missing_rotation_witness:
  "ParseRotatedLog_at example_programs gap_fs example_query 2 (Some 7) = ([IsFile ''log.2'', IsFile ''log.2.gz''], [])
   \<and> ParseRotatedLog_at example_programs gap_fs forward_query 2 None =
       ([IsFile ''log.2'', IsFile ''log.2.gz''] @ io_of (ParseRotatedLog_at example_programs gap_fs forward_query 1 None),
        entries_of (ParseRotatedLog_at example_programs gap_fs forward_query 1 None))"
  using missing_rotation [where q = example_query and rot = 2 and fs = gap_fs and limit = "Some 7"
                           and pr = example_programs]
        missing_rotation [where q = forward_query and rot = 2 and fs = gap_fs and limit = None
                           and pr = example_programs]
  by (simp add: example_query_def forward_query_def gap_fs_def rotated_name_def str_int_def
        digits.simps locate_def isfile_def)

lemma entry_of_malformed:
  "\<not> has_comma (strip bad) \<or> p (token bad) (payload bad) = Raised \<Longrightarrow> entry_of p bad = None"
  by (auto simp: entry_of_def parse_line_def token_def payload_def)

lemma collect_drop:
  assumes "entry_of p bad = None"
  shows "snd (collect p limit (xs @ bad # ys)) = snd (collect p limit (xs @ ys))"
proof (induction xs arbitrary: limit)
  case Nil
  then show ?case using assms by (simp add: collect_skip del: collect.simps)
next
  case (Cons x xs)
  show ?case
  proof (cases "entry_of p x")
    case None
    then show ?thesis using Cons [of limit] by (simp add: collect_skip del: collect.simps)
  next
    case (Some e)
    show ?thesis
    proof (cases limit)
      case None
      then show ?thesis using Some Cons [of None]
        by (simp add: collect_keep_None del: collect.simps)
    next
      case (Some n)
      then show ?thesis using \<open>entry_of p x = Some e\<close> Cons [of "Some (n - 1)"]
        by (simp add: collect_keep_Some del: collect.simps)
    qed
  qed
qed

text \<open>
  C7. A line without a comma, or one on which the parser raises, yields no entry and does
  not disturb the loop: with the line anywhere among the others, the entries collected and
  the limit left are those collected without it. A log of nine well-formed lines and one
  line without a comma yields the nine entries; the bad line is logged and the query
  returns normally.
\<close>

theorem malformed_line_dropped:
  "(\<not> has_comma (strip bad) \<or> p (token bad) (payload bad) = Raised
      \<longrightarrow> snd (collect p limit (xs @ bad # ys)) = snd (collect p limit (xs @ ys)))
   \<and> ParseRotatedLog pr ten_line_fs example_query None None =
       ([IsFile ''log'', OpenFile ''log'', Popen ''cat'', Popen ''tr'',
         LogException ''no separator here'', IsFile ''log.1'', IsFile ''log.1.gz''],
        [Tuple ''i'' ''9'', Tuple ''h'' ''8'', Tuple ''g'' ''7'', Tuple ''f'' ''6'',
         Tuple ''e'' ''5'', Tuple ''d'' ''4'', Tuple ''c'' ''3'', Tuple ''b'' ''2'',
         Tuple ''a'' ''1''])"
proof (intro conjI impI)
  show "ParseRotatedLog pr ten_line_fs example_query None None =
       ([IsFile ''log'', OpenFile ''log'', Popen ''cat'', Popen ''tr'',
         LogException ''no separator here'', IsFile ''log.1'', IsFile ''log.1.gz''],
        [Tuple ''i'' ''9'', Tuple ''h'' ''8'', Tuple ''g'' ''7'', Tuple ''f'' ''6'',
         Tuple ''e'' ''5'', Tuple ''d'' ''4'', Tuple ''c'' ''3'', Tuple ''b'' ''2'',
         Tuple ''a'' ''1''])"
    by code_simp
qed (simp add: collect_drop entry_of_malformed del: collect.simps)

theorem malformed_line_dropped_witness:
  "snd (collect default_logparserfn (Some 2) [''b,2'', ''oops'', ''a,1''])
     = snd (collect default_logparserfn (Some 2) [''b,2'', ''a,1'' :: string])
   \<and> snd (collect default_logparserfn (Some 2) [''b,2'', ''a,1''])
     = ([Tuple ''b'' ''2'', Tuple ''a'' ''1'' :: unit entry], Some 0)"
  using malformed_line_dropped [where bad = "''oops''" and p = default_logparserfn and limit = "Some 2"
                                and xs = "[''b,2'']" and ys = "[''a,1'']" and pr = example_programs]
  by (simp add: has_comma_def strip_def is_space_def default_logparserfn_def parse_line_def
        before_comma_def after_comma_def)

text \<open>
  C6, as the code has it. The comparisons of the filter are those of \<open>awk\<close>. When \<open>awk\<close>
  compares the cursor, and the end cursor if one is given, with every field as text (a
  cursor that does not look like a number, such as a timestamp), the \<open>awk\<close> stage keeps
  exactly the lines whose first field (the text before the first comma) lies within the
  bounds of the table: backward, the field is at most the cursor (below it when
  \<open>includecursor\<close> is false) and at least the end cursor (above it when
  \<open>includeendcursor\<close> is false); forward, the comparisons are turned around. The lines
  kept stay in their order.
\<close>

theorem cursor_filter_table:
  assumes "cursor q = Some c" and "c \<noteq> []" and "compared_as_text pr c"
    and "\<And>e. endcursor q = Some e \<Longrightarrow> e \<noteq> [] \<Longrightarrow> compared_as_text pr e"
  shows "cursor_stage pr q ls =
           filter (\<lambda>line. within_cursor q c (before_comma line) \<and>
                     (case endcursor q of
                        None \<Rightarrow> True
                      | Some e \<Rightarrow> e = [] \<or> within_endcursor q e (before_comma line))) ls"
  using assms
  by (auto simp: cursor_stage_def awk_def conditions_def within_cursor_def within_endcursor_def
        compared_as_text_def text_compare_def
      split: option.splits intro!: filter_cong)

lemma example_awk_text:
  "\<not> plain_integer v \<Longrightarrow> compared_as_text example_programs v"
  by (simp add: compared_as_text_def example_programs_def)

theorem cursor_filter_table_witness:
  "cursor_stage example_programs table_query [''a,1'', ''ab,2'', ''b,3'', ''c,4'']
     = [''ab,2'', ''b,3'']"
proof -
  have "compared_as_text example_programs ''b''" "compared_as_text example_programs ''a''"
    by (simp_all add: example_awk_text plain_integer_def)
  then have "cursor_stage example_programs table_query [''a,1'', ''ab,2'', ''b,3'', ''c,4'']
     = filter (\<lambda>line. within_cursor table_query ''b'' (before_comma line) \<and>
                     (case endcursor table_query of
                        None \<Rightarrow> True
                      | Some e \<Rightarrow> e = [] \<or> within_endcursor table_query e (before_comma line)))
         [''a,1'', ''ab,2'', ''b,3'', ''c,4'']"
    by (intro cursor_filter_table) (simp_all add: table_query_def example_query_def)
  then show ?thesis
    by (simp add: table_query_def example_query_def within_cursor_def within_endcursor_def
          before_comma_def)
qed

text \<open>
  C6, as stated, fails where \<open>awk\<close> compares numbers: with the cursor \<open>10\<close>, inclusive and
  backward, the line \<open>9,x\<close> is kept, since 9 is at most 10, although the token \<open>9\<close> is not
  at most \<open>10\<close> in the order of the strings.
\<close>

theorem numeric_tokens_compared_as_numbers:
  "cursor_stage example_programs numeric_query [''9,x''] = [''9,x'']
   \<and> \<not> within_cursor numeric_query ''10'' (before_comma ''9,x'')"
  by code_simp

lemma io_at_start:
  assumes "0 \<le> rot" "rot \<le> maxrotate q"
  shows "prefix (fst (locate fs (logfile q) rot) @ [IsFile (snd (locate fs (logfile q) rot))])
           (io_of (ParseRotatedLog_at pr fs q rot limit))"
    and "located fs q rot = Some content \<Longrightarrow>
         prefix (fst (locate fs (logfile q) rot)
                 @ [IsFile (snd (locate fs (logfile q) rot)),
                    OpenFile (snd (locate fs (logfile q) rot))]
                 @ chain_spawned q limit (snd (locate fs (logfile q) rot)))
           (io_of (ParseRotatedLog_at pr fs q rot limit))"
proof -
  obtain probes filename where loc: "locate fs (logfile q) rot = (probes, filename)"
    by (cases "locate fs (logfile q) rot")
  show "prefix (fst (locate fs (logfile q) rot) @ [IsFile (snd (locate fs (logfile q) rot))])
           (io_of (ParseRotatedLog_at pr fs q rot limit))"
    using assms loc
    by (subst ParseRotatedLog_at.simps)
       (simp add: io_of_def split: prod.splits option.splits)
  assume "located fs q rot = Some content"
  then have ex: "fs filename = Some content" using loc by (simp add: located_def)
  obtain logged es l where
    col: "collect (parser q) limit (rev (chain_output pr q limit content @ [[]])) = (logged, es, l)"
    by (cases "collect (parser q) limit (rev (chain_output pr q limit content @ [[]]))")
  show "prefix (fst (locate fs (logfile q) rot)
                 @ [IsFile (snd (locate fs (logfile q) rot)),
                    OpenFile (snd (locate fs (logfile q) rot))]
                 @ chain_spawned q limit (snd (locate fs (logfile q) rot)))
           (io_of (ParseRotatedLog_at pr fs q rot limit))"
    using assms loc ex col
    by (subst ParseRotatedLog_at.simps)
       (simp add: io_of_def read_file_def split: prod.splits)
qed

text \<open>
  C8, as the code has it. The function has no check of the cursors against each other. A
  query whose end cursor lies before its cursor in the direction of the walk (both given)
  starts its work like any other: it probes the file of the first rotation index, and when
  that file exists it opens it and starts the chain of processes, \<open>awk\<close> among them.
\<close>

theorem misordered_cursors_not_rejected:
  assumes "cursor q = Some c" "c \<noteq> []" "endcursor q = Some e" "e \<noteq> []"
    and "if forward q then e < c else c < e"
    and "0 \<le> maxrotate q"
  shows "prefix (fst (locate fs (logfile q) (start_rotate q))
                 @ [IsFile (snd (locate fs (logfile q) (start_rotate q)))])
           (io_of (ParseRotatedLog pr fs q None limit))
         \<and> (located fs q (start_rotate q) = Some content \<longrightarrow>
              prefix (fst (locate fs (logfile q) (start_rotate q))
                      @ [IsFile (snd (locate fs (logfile q) (start_rotate q))),
                         OpenFile (snd (locate fs (logfile q) (start_rotate q)))]
                      @ chain_spawned q limit (snd (locate fs (logfile q) (start_rotate q))))
                (io_of (ParseRotatedLog pr fs q None limit))
              \<and> Popen ''awk'' \<in> set (chain_spawned q limit
                                      (snd (locate fs (logfile q) (start_rotate q)))))"
proof -
  have range: "0 \<le> start_rotate q" "start_rotate q \<le> maxrotate q"
    using assms(6) by (simp_all add: start_rotate_def)
  have call: "ParseRotatedLog pr fs q None limit = ParseRotatedLog_at pr fs q (start_rotate q) limit"
    by (simp add: ParseRotatedLog_def start_rotate_def)
  have awk: "Popen ''awk'' \<in> set (chain_spawned q limit (snd (locate fs (logfile q) (start_rotate q))))"
    using assms(1,2) by (simp add: chain_spawned_def truthy_def)
  show ?thesis
    unfolding call using io_at_start [OF range] awk by blast
qed

theorem misordered_cursors_not_rejected_witness:
  "prefix [IsFile ''log'', OpenFile ''log'', Popen ''cat'', Popen ''tr'', Popen ''awk'']
     (io_of (ParseRotatedLog example_programs [''log'' \<mapsto> [''b,1'']] misordered_query None None))"
proof -
  have "located [''log'' \<mapsto> [''b,1'']] misordered_query (start_rotate misordered_query)
          = Some [''b,1'']"
    by (simp add: located_def locate_def start_rotate_def misordered_query_def example_query_def)
  then show ?thesis
    using misordered_cursors_not_rejected
            [where q = misordered_query and c = "''a''" and e = "''c''" and content = "[''b,1'']"
               and fs = "[''log'' \<mapsto> [''b,1'']]" and pr = example_programs and limit = None]
    by (simp add: misordered_query_def example_query_def start_rotate_def locate_def
          chain_spawned_def truthy_def endswith_gz_def suffix_to_prefix)
qed

text \<open>
  C8, as stated, fails: the backward query with cursor \<open>a\<close> and end cursor \<open>c\<close> probes
  \<open>log\<close>, opens it, starts \<open>cat\<close>, \<open>tr\<close> and \<open>awk\<close>, probes \<open>log.1\<close> and returns normally.
\<close>

theorem misordered_cursors_do_io:
  "ParseRotatedLog example_programs [''log'' \<mapsto> [''b,1'']] misordered_query None None =
     ([IsFile ''log'', OpenFile ''log'', Popen ''cat'', Popen ''tr'', Popen ''awk'',
       IsFile ''log.1'', IsFile ''log.1.gz''], [])"
  by code_simp

lemma entry_of_default:
  "entry_of default_logparserfn raw =
     (if carries_pair raw then Some (Tuple (token raw) (payload raw)) else None)"
  by (simp add: entry_of_def parse_line_def default_logparserfn_def token_def payload_def
        carries_pair_def)

lemma map_filter_default:
  "List.map_filter (entry_of default_logparserfn) ls =
     map (\<lambda>raw. Tuple (token raw) (payload raw)) (filter carries_pair ls)"
  by (induction ls) (simp_all add: map_filter_simps entry_of_default)

lemma file_entries_default:
  "logparserfn q = None \<Longrightarrow>
   file_entries pr q limit content =
     map (\<lambda>raw. Tuple (token raw) (payload raw))
       (filter carries_pair (rev (chain_output pr q limit content)))"
  by (simp add: file_entries_def parser_def map_filter_default)

lemma entries_at_source:
  "e \<in> set (entries_of (ParseRotatedLog_at pr fs q rot limit)) \<Longrightarrow>
   \<exists>i l content. located fs q i = Some content \<and> e \<in> set (file_entries pr q l content)"
proof (induction pr fs q rot limit rule: walk_induct)
  case (step pr fs q rot limit)
  show ?case
  proof (cases "rot < 0 \<or> rot > maxrotate q")
    case True
    then show ?thesis using step.prems by (subst (asm) entries_at) simp
  next
    case in_range: False
    show ?thesis
    proof (cases "located fs q rot")
      case None
      show ?thesis
      proof (cases "\<not> forward q \<and> rot > 0")
        case True
        then show ?thesis using step.prems in_range None by (subst (asm) entries_at) simp
      next
        case False
        then have "e \<in> set (entries_of (ParseRotatedLog_at pr fs q (next_rotate q rot) limit))"
          using step.prems in_range None by (subst (asm) entries_at) (auto split: if_splits)
        then show ?thesis using step.IH(1) [OF in_range None False] by simp
      qed
    next
      case (Some content)
      have "e \<in> set (file_entries pr q limit content) \<or>
            (goes_on (limit_left pr q limit content) \<and>
             e \<in> set (entries_of (ParseRotatedLog_at pr fs q (next_rotate q rot)
                                      (limit_left pr q limit content))))"
        using step.prems in_range Some
        by (subst (asm) entries_at) (auto split: if_splits)
      then show ?thesis
      proof
        assume "e \<in> set (file_entries pr q limit content)"
        then show ?thesis using Some by blast
      next
        assume a: "goes_on (limit_left pr q limit content) \<and>
             e \<in> set (entries_of (ParseRotatedLog_at pr fs q (next_rotate q rot)
                                      (limit_left pr q limit content)))"
        then show ?thesis using step.IH(2) [OF in_range Some] by simp
      qed
    qed
  qed
qed

lemma first_file_entries:
  assumes "0 \<le> rot" "rot \<le> maxrotate q" "located fs q rot = Some content"
  shows "set (file_entries pr q limit content)
           \<subseteq> set (entries_of (ParseRotatedLog_at pr fs q rot limit))"
  using assms by (subst entries_at) auto

text \<open>
  C9. A query without a parser uses the default one (lines 181 to 183). The entries read from
  one file are then exactly the pairs (token, payload) of the lines of the chain's output that
  are not blank and hold a comma, latest first: the token is the text before the first comma,
  the payload the text after it, each stripped of surrounding whitespace. Every entry the
  query returns is such a pair of a line put out by the chain for some file of the walk, and
  every such line of the first file of the walk has its pair among the entries returned.
  A line here is a line the chain of processes puts out, whatever \<open>grep\<close> was asked to print.
\<close>

theorem default_parser_entries:
  assumes "logparserfn q = None"
  shows "fst (snd (read_file pr q limit filename content)) =
           map (\<lambda>raw. Tuple (token raw) (payload raw))
             (filter carries_pair (rev (chain_output pr q limit content)))
         \<and> (e \<in> set (entries_of (ParseRotatedLog pr fs q rot limit)) \<longrightarrow>
              (\<exists>i l lines raw. located fs q i = Some lines
                  \<and> raw \<in> set (chain_output pr q l lines) \<and> carries_pair raw
                  \<and> e = Tuple (token raw) (payload raw)))
         \<and> (0 \<le> maxrotate q \<and> located fs q (start_rotate q) = Some content
              \<and> raw \<in> set (chain_output pr q limit content) \<and> carries_pair raw \<longrightarrow>
              Tuple (token raw) (payload raw)
                \<in> set (entries_of (ParseRotatedLog pr fs q None limit)))"
proof (intro conjI impI)
  show "fst (snd (read_file pr q limit filename content)) =
           map (\<lambda>raw. Tuple (token raw) (payload raw))
             (filter carries_pair (rev (chain_output pr q limit content)))"
    using assms by (simp add: read_file_entries file_entries_default)
next
  assume "e \<in> set (entries_of (ParseRotatedLog pr fs q rot limit))"
  then obtain i l lines where loc: "located fs q i = Some lines"
      and mem: "e \<in> set (file_entries pr q l lines)"
    unfolding ParseRotatedLog_def by (blast dest: entries_at_source)
  from mem obtain raw where "raw \<in> set (chain_output pr q l lines)" "carries_pair raw"
      "e = Tuple (token raw) (payload raw)"
    using assms by (auto simp: file_entries_default)
  then show "\<exists>i l lines raw. located fs q i = Some lines
                  \<and> raw \<in> set (chain_output pr q l lines) \<and> carries_pair raw
                  \<and> e = Tuple (token raw) (payload raw)"
    using loc by blast
next
  assume a: "0 \<le> maxrotate q \<and> located fs q (start_rotate q) = Some content
              \<and> raw \<in> set (chain_output pr q limit content) \<and> carries_pair raw"
  then have range: "0 \<le> start_rotate q" "start_rotate q \<le> maxrotate q"
    by (simp_all add: start_rotate_def)
  have "Tuple (token raw) (payload raw) \<in> set (file_entries pr q limit content)"
    using a assms by (simp add: file_entries_default)
  then have "Tuple (token raw) (payload raw)
               \<in> set (entries_of (ParseRotatedLog_at pr fs q (start_rotate q) limit))"
    using first_file_entries [OF range, of fs content pr limit] a by blast
  then show "Tuple (token raw) (payload raw)
                \<in> set (entries_of (ParseRotatedLog pr fs q None limit))"
    by (simp add: ParseRotatedLog_def start_rotate_def)
qed

theorem default_parser_entries_witness:
  "fst (snd (read_file example_programs example_query None ''log''
               [''a,1'', ''no separator'', ''  b , 2 '']))
     = [Tuple ''b'' ''2'', Tuple ''a'' ''1'']
   \<and> Tuple ''b'' ''2''
       \<in> set (entries_of (ParseRotatedLog example_programs
                  [''log'' \<mapsto> [''a,1'', ''no separator'', ''  b , 2 '']] example_query None None))
   \<and> (\<exists>i l lines raw.
         located [''log'' \<mapsto> [''a,1'', ''no separator'', ''  b , 2 '']] example_query i = Some lines
         \<and> raw \<in> set (chain_output example_programs example_query l lines) \<and> carries_pair raw
         \<and> Tuple ''b'' ''2'' = Tuple (token raw) (payload raw))"
proof -
  let ?L = "[''a,1'', ''no separator'', ''  b , 2 '']"
  have none: "logparserfn example_query = None"
    by (simp add: example_query_def)
  have ev: "map (\<lambda>raw. Tuple (token raw) (payload raw))
          (filter carries_pair (rev (chain_output example_programs example_query None ?L)))
        = [Tuple ''b'' ''2'', Tuple ''a'' ''1'' :: unit entry]"
    by code_simp
  have mx: "0 \<le> maxrotate example_query"
    by (simp add: example_query_def)
  have loc: "located [''log'' \<mapsto> ?L] example_query (start_rotate example_query) = Some ?L"
    by code_simp
  have mem: "''  b , 2 '' \<in> set (chain_output example_programs example_query None ?L)"
    by code_simp
  have pair: "carries_pair ''  b , 2 ''"
    by code_simp
  have tok: "token ''  b , 2 '' = ''b''" "payload ''  b , 2 '' = ''2''"
    by code_simp+
  note inst = default_parser_entries [where q = example_query and pr = example_programs
             and limit = None and filename = "''log''" and content = "?L"
             and fs = "[''log'' \<mapsto> ?L]" and raw = "''  b , 2 ''" and rot = None
             and e = "Tuple ''b'' ''2''", OF none]
  have one: "fst (snd (read_file example_programs example_query None ''log'' ?L))
     = [Tuple ''b'' ''2'', Tuple ''a'' ''1'']"
    using inst ev by simp
  have two: "Tuple ''b'' ''2''
       \<in> set (entries_of (ParseRotatedLog example_programs [''log'' \<mapsto> ?L] example_query None None))"
    using inst mx loc mem pair tok by simp
  have three: "\<exists>i l lines raw.
         located [''log'' \<mapsto> ?L] example_query i = Some lines
         \<and> raw \<in> set (chain_output example_programs example_query l lines) \<and> carries_pair raw
         \<and> Tuple ''b'' ''2'' = Tuple (token raw) (payload raw)"
    using inst two by blast
  show ?thesis using one two three by blast
qed









lemma limit_left_None: "limit_left pr q None content = None"
  by (simp add: limit_left_def)

lemma goes_on_simps: "goes_on None" "goes_on (Some n) \<longleftrightarrow> 0 < n"
  by (simp_all add: goes_on_def)






lemma subseq_set_mono: "subseq xs ys \<Longrightarrow> set xs \<subseteq> set ys"
  by (induction rule: list_emb.induct) auto

lemma sorted_wrt_subseq: "subseq xs ys \<Longrightarrow> sorted_wrt P ys \<Longrightarrow> sorted_wrt P xs"
proof (induction rule: list_emb.induct)
  case (list_emb_Nil ys)
  then show ?case by simp
next
  case (list_emb_Cons xs ys y)
  then show ?case by simp
next
  case (list_emb_Cons2 x y xs ys)
  then show ?case using subseq_set_mono [of xs ys] by auto
qed

lemma subseq_rev_mono: "subseq xs ys \<Longrightarrow> subseq (rev xs) (rev ys)"
proof (induction rule: list_emb.induct)
  case (list_emb_Nil ys)
  then show ?case by simp
next
  case (list_emb_Cons xs ys y)
  then show ?case by (simp add: list_emb_prefix)
next
  case (list_emb_Cons2 x y xs ys)
  then show ?case by (simp add: list_emb_append_mono)
qed

lemma subseq_take_self: "subseq (take n xs) xs"
  using list_emb_prefix [of "(=)" "take n xs" "take n xs" "drop n xs"] by simp

lemma subseq_drop_self: "subseq (drop n xs) xs"
  using list_emb_append2 [of "(=)" "drop n xs" "drop n xs" "take n xs"] by simp

lemma subseq_cursor_stage: "subseq (cursor_stage pr q ls) ls"
  by (simp add: cursor_stage_def awk_def split: option.splits)

lemma subseq_greps:
  "(\<And>args ls. args \<in> set gs \<Longrightarrow> subseq (grep pr args ls) ls) \<Longrightarrow>
   subseq (foldl (\<lambda>acc args. grep pr args acc) ls gs) ls"
proof (induction gs arbitrary: ls)
  case Nil
  then show ?case by simp
next
  case (Cons g gs)
  have "subseq (foldl (\<lambda>acc args. grep pr args acc) (grep pr g ls) gs) (grep pr g ls)"
    using Cons by simp
  moreover have "subseq (grep pr g ls) ls" using Cons.prems by simp
  ultimately show ?case using subseq_order.trans by auto
qed

lemma subseq_filtered:
  assumes "grep_selects pr q"
  shows "subseq (filtered pr q content) (tr_d_nul content)"
proof -
  have g: "\<And>args ls. args \<in> set (grep_calls q) \<Longrightarrow> subseq (grep pr args ls) ls"
    using assms unfolding grep_selects_def by blast
  have a: "subseq (cursor_stage pr q (tr_d_nul content)) (tr_d_nul content)"
    by (rule subseq_cursor_stage)
  have b: "subseq (grep_stage pr q (cursor_stage pr q (tr_d_nul content)))
             (cursor_stage pr q (tr_d_nul content))"
    unfolding grep_stage_def by (rule subseq_greps) (simp add: g grep_calls_def)
  have c: "\<And>ls. subseq (keyword_stage pr q ls) ls"
    using g by (auto simp: keyword_stage_def grep_calls_def split: option.splits)
  show ?thesis unfolding filtered_def
    using c [of "grep_stage pr q (cursor_stage pr q (tr_d_nul content))"] b a
    by (blast intro: subseq_order.trans)
qed

lemma subseq_chain_output:
  assumes "grep_selects pr q"
  shows "subseq (chain_output pr q limit content) (tr_d_nul content)"
proof -
  have "subseq (chain_output pr q limit content) (filtered pr q content)"
    by (simp add: chain_output_def limit_stage_def tail_n_def head_n_def
          subseq_take_self subseq_drop_self split: option.splits)
  then show ?thesis using subseq_filtered [OF assms] by (blast intro: subseq_order.trans)
qed

lemma entry_of_SomeD:
  assumes "entry_of p raw = Some e"
  shows "carries_pair raw \<and> p (token raw) (payload raw) = Returned (Some e)"
  using assms
  by (auto simp: entry_of_def parse_line_def carries_pair_def token_def payload_def
        split: if_splits outcome.splits)

lemma subseq_cursors:
  assumes "\<And>c l e. p c l = Returned (Some e) \<Longrightarrow> cursor_of e = c"
  shows "subseq (map cursor_of (List.map_filter (entry_of p) xs))
           (map token (filter carries_pair xs))"
proof (induction xs)
  case Nil
  then show ?case by (simp add: map_filter_simps)
next
  case (Cons raw xs)
  show ?case
  proof (cases "entry_of p raw")
    case None
    then show ?thesis using Cons by (auto simp: map_filter_simps intro: list_emb_Cons)
  next
    case (Some e)
    then have "carries_pair raw" "cursor_of e = token raw"
      using entry_of_SomeD [OF Some] assms by auto
    then show ?thesis using Cons Some by (simp add: map_filter_simps)
  qed
qed

lemma subseq_file_entries:
  assumes "grep_selects pr q"
    and "\<And>c l e. parser q c l = Returned (Some e) \<Longrightarrow> cursor_of e = c"
    and "located fs q i = Some content"
  shows "subseq (map cursor_of (file_entries pr q limit content)) (file_tokens fs q i)"
proof -
  have "subseq (rev (chain_output pr q limit content)) (rev (tr_d_nul content))"
    using subseq_chain_output [OF assms(1)] by (rule subseq_rev_mono)
  then have "subseq (map token (filter carries_pair (rev (chain_output pr q limit content))))
               (map token (filter carries_pair (rev (tr_d_nul content))))"
    by (intro subseq_map subseq_filter)
  moreover have "subseq (map cursor_of (file_entries pr q limit content))
                   (map token (filter carries_pair (rev (chain_output pr q limit content))))"
    unfolding file_entries_def using assms(2) by (rule subseq_cursors)
  ultimately show ?thesis
    using assms(3) by (auto simp: file_tokens_def lines_at_def intro: subseq_order.trans)
qed

lemma tokens_between_first:
  "lo \<le> hi \<Longrightarrow> tokens_between fs q lo hi = file_tokens fs q lo @ tokens_between fs q (lo + 1) hi"
  by (simp add: tokens_between_def file_tokens_def upto_rec1 [of lo hi])

lemma tokens_between_last:
  "lo \<le> hi \<Longrightarrow> tokens_between fs q lo hi = tokens_between fs q lo (hi - 1) @ file_tokens fs q hi"
  by (simp add: tokens_between_def file_tokens_def upto_rec2 [of lo hi])

lemma walk_tokens:
  assumes "grep_selects pr q"
    and "\<And>c l e. parser q c l = Returned (Some e) \<Longrightarrow> cursor_of e = c"
  shows "subseq (map cursor_of (entries_of (ParseRotatedLog_at pr fs q rot limit)))
           (if forward q then tokens_between fs q 0 rot
            else tokens_between fs q rot (maxrotate q))"
  using assms
proof (induction pr fs q rot limit rule: walk_induct)
  case (step pr fs q rot limit)
  note G = step.prems(1) and K = step.prems(2)
  let ?T = "if forward q then tokens_between fs q 0 rot else tokens_between fs q rot (maxrotate q)"
  let ?T' = "if forward q then tokens_between fs q 0 (next_rotate q rot)
             else tokens_between fs q (next_rotate q rot) (maxrotate q)"
  show ?case
  proof (cases "rot < 0 \<or> rot > maxrotate q")
    case True
    then have "entries_of (ParseRotatedLog_at pr fs q rot limit) = []"
      by (subst entries_at) simp
    then show ?thesis by simp
  next
    case in_range: False
    have split: "?T = (if forward q then ?T' @ file_tokens fs q rot else file_tokens fs q rot @ ?T')"
      using in_range tokens_between_first [of rot "maxrotate q" fs q]
        tokens_between_last [of 0 rot fs q]
      by (simp add: next_rotate_def)
    show ?thesis
    proof (cases "located fs q rot")
      case None
      show ?thesis
      proof (cases "\<not> forward q \<and> rot > 0")
        case True
        then have "entries_of (ParseRotatedLog_at pr fs q rot limit) = []"
          using in_range None by (subst entries_at) simp
        then show ?thesis by simp
      next
        case False
        have e: "entries_of (ParseRotatedLog_at pr fs q rot limit)
                = entries_of (ParseRotatedLog_at pr fs q (next_rotate q rot) limit)"
          using in_range None False by (subst entries_at) auto
        have "subseq (map cursor_of (entries_of (ParseRotatedLog_at pr fs q (next_rotate q rot) limit))) ?T'"
          using step.IH(1) [OF in_range None False G K] by simp
        then have "subseq (map cursor_of (entries_of (ParseRotatedLog_at pr fs q rot limit))) ?T"
          unfolding e split by (auto intro: list_emb_prefix list_emb_append2)
        then show ?thesis .
      qed
    next
      case (Some content)
      let ?F = "map cursor_of (file_entries pr q limit content)"
      have F: "subseq ?F (file_tokens fs q rot)"
        using subseq_file_entries [OF G K Some] by simp
      show ?thesis
      proof (cases "goes_on (limit_left pr q limit content)")
        case True
        let ?R = "map cursor_of (entries_of (ParseRotatedLog_at pr fs q (next_rotate q rot)
                     (limit_left pr q limit content)))"
        have R: "subseq ?R ?T'"
          using step.IH(2) [OF in_range Some True G K] by simp
        have e: "map cursor_of (entries_of (ParseRotatedLog_at pr fs q rot limit))
                = (if forward q then ?R @ ?F else ?F @ ?R)"
          using in_range Some True by (subst entries_at) simp
        have "subseq (if forward q then ?R @ ?F else ?F @ ?R) ?T"
          unfolding split using F R by (auto intro: list_emb_append_mono)
        then show ?thesis unfolding e .
      next
        case False
        have e: "map cursor_of (entries_of (ParseRotatedLog_at pr fs q rot limit)) = ?F"
          using in_range Some False by (subst entries_at) simp
        have "subseq ?F ?T"
          unfolding split using F by (auto intro: list_emb_prefix list_emb_append2)
        then show ?thesis unfolding e .
      qed
    qed
  qed
qed

text \<open>
  C2, as the code has it. When every \<open>grep\<close> of the query prints some of its input lines in
  their order, and the parser keeps the token it is given as the cursor of its entry, the
  cursors of the entries returned are a subsequence of the tokens of the log set, read from the
  last line of the live file to the first line of the oldest file: the order comes from the
  order of the lines in the files and of the files in the walk, nothing is sorted. So, over a
  log set in chronological order, the result is ordered latest cursor first, for a backward
  and for a forward query alike.
\<close>

theorem latest_first:
  assumes "grep_selects pr q"
    and "\<And>c l e. parser q c l = Returned (Some e) \<Longrightarrow> cursor_of e = c"
  shows "subseq (map cursor_of (entries_of (ParseRotatedLog pr fs q None limit)))
           (tokens_between fs q 0 (maxrotate q))
         \<and> (chronological fs q \<longrightarrow>
              sorted_wrt (\<lambda>a b. b \<le> a)
                (map cursor_of (entries_of (ParseRotatedLog pr fs q None limit))))"
proof -
  have w: "subseq (map cursor_of (entries_of (ParseRotatedLog_at pr fs q
                      (if forward q then maxrotate q else 0) limit)))
             (if forward q then tokens_between fs q 0 (if forward q then maxrotate q else 0)
              else tokens_between fs q (if forward q then maxrotate q else 0) (maxrotate q))"
    using assms(1) by (rule walk_tokens) (erule assms(2))
  have s: "subseq (map cursor_of (entries_of (ParseRotatedLog pr fs q None limit)))
           (tokens_between fs q 0 (maxrotate q))"
    using w by (simp add: ParseRotatedLog_def split: if_splits)
  then show ?thesis
    unfolding chronological_def by (blast intro: sorted_wrt_subseq)
qed

lemma example_grep_selects: "subseq (grep example_programs args ls) ls"
  by (simp add: example_programs_def split: list.splits)

theorem latest_first_witness:
  "chronological two_file_fs forward_query
   \<and> map tuple_cursor (entries_of (ParseRotatedLog example_programs two_file_fs forward_query None None))
       = [''d'', ''c'', ''b'', ''a'']
   \<and> subseq (map tuple_cursor
               (entries_of (ParseRotatedLog example_programs two_file_fs forward_query None None)))
        (tokens_between two_file_fs forward_query 0 (maxrotate forward_query))
   \<and> sorted_wrt (\<lambda>a b. b \<le> a)
        (map tuple_cursor
           (entries_of (ParseRotatedLog example_programs two_file_fs forward_query None None)))"
proof -
  have c: "chronological two_file_fs forward_query"
    by code_simp
  have v: "map tuple_cursor
             (entries_of (ParseRotatedLog example_programs two_file_fs forward_query None None))
           = [''d'', ''c'', ''b'', ''a'']"
    by code_simp
  have g: "grep_selects example_programs forward_query"
    by (simp add: grep_selects_def example_grep_selects)
  have k: "\<And>c l e. parser forward_query c l = Returned (Some e) \<Longrightarrow> tuple_cursor e = c"
    by (auto simp: parser_def forward_query_def example_query_def default_logparserfn_def
          tuple_cursor_def)
  have t: "subseq (map tuple_cursor
               (entries_of (ParseRotatedLog example_programs two_file_fs forward_query None None)))
             (tokens_between two_file_fs forward_query 0 (maxrotate forward_query))
           \<and> (chronological two_file_fs forward_query \<longrightarrow>
                sorted_wrt (\<lambda>a b. b \<le> a)
                  (map tuple_cursor
                     (entries_of (ParseRotatedLog example_programs two_file_fs forward_query
                                    None None))))"
    using g by (rule latest_first) (erule k)
  show ?thesis
    using t c v by blast
qed

text \<open>
  C2, as stated, fails for the forward direction: over \<open>log.1\<close> with the tokens \<open>a, b\<close> and
  \<open>log\<close> with the tokens \<open>c, d\<close>, the forward query returns \<open>d, c, b, a\<close>.
\<close>

theorem forward_result_latest_first:
  "entries_of (ParseRotatedLog example_programs two_file_fs forward_query None None)
     = [Tuple ''d'' ''4'', Tuple ''c'' ''3'', Tuple ''b'' ''2'', Tuple ''a'' ''1'']
   \<and> \<not> sorted (map tuple_cursor
        (entries_of (ParseRotatedLog example_programs two_file_fs forward_query None None)))"
proof -
  have a: "entries_of (ParseRotatedLog example_programs two_file_fs forward_query None None)
     = [Tuple ''d'' ''4'', Tuple ''c'' ''3'', Tuple ''b'' ''2'', Tuple ''a'' ''1'']"
    by code_simp
  have b: "\<not> sorted (map tuple_cursor
             [Tuple ''d'' ''4'', Tuple ''c'' ''3'', Tuple ''b'' ''2'', Tuple ''a'' ''1''])"
    by code_simp
  show ?thesis unfolding a using a b by simp
qed

lemma forward_walk:
  assumes "forward q" and "limit = None" and "rot \<le> maxrotate q"
  shows "entries_of (ParseRotatedLog_at pr fs q rot limit)
           = concat (map (entries_in pr fs q) [0..rot])"
  using assms
proof (induction pr fs q rot limit rule: walk_induct)
  case (step pr fs q rot limit)
  note fw = step.prems(1) and lim = step.prems(2) and le = step.prems(3)
  show ?case
  proof (cases "rot < 0")
    case True
    then have "entries_of (ParseRotatedLog_at pr fs q rot limit) = []"
      by (subst entries_at) simp
    then show ?thesis using True by simp
  next
    case False
    then have in_range: "\<not> (rot < 0 \<or> rot > maxrotate q)" using le by simp
    have up: "[0..rot] = [0..rot - 1] @ [rot]"
      using False upto_rec2 [of 0 rot] by simp
    have nx: "next_rotate q rot = rot - 1" "rot - 1 \<le> maxrotate q"
      using fw le by (simp_all add: next_rotate_def)
    show ?thesis
    proof (cases "located fs q rot")
      case None
      have go: "\<not> (\<not> forward q \<and> rot > 0)" using fw by simp
      have e: "entries_of (ParseRotatedLog_at pr fs q rot limit)
                = entries_of (ParseRotatedLog_at pr fs q (next_rotate q rot) limit)"
        using in_range None fw by (subst entries_at) simp
      have "entries_of (ParseRotatedLog_at pr fs q (next_rotate q rot) limit)
              = concat (map (entries_in pr fs q) [0..rot - 1])"
        using step.IH(1) [OF in_range None go fw lim] nx by simp
      moreover have "entries_in pr fs q rot = []" using None by (simp add: entries_in_def)
      ultimately show ?thesis unfolding e up by simp
    next
      case (Some content)
      have e: "entries_of (ParseRotatedLog_at pr fs q rot limit)
                = entries_of (ParseRotatedLog_at pr fs q (next_rotate q rot) None)
                  @ file_entries pr q None content"
        using in_range Some fw lim
        by (subst entries_at) (simp add: limit_left_None goes_on_simps)
      have "entries_of (ParseRotatedLog_at pr fs q (next_rotate q rot) None)
              = concat (map (entries_in pr fs q) [0..rot - 1])"
        using step.IH(2) [OF in_range Some _ fw] lim nx
        by (simp add: limit_left_None goes_on_simps)
      moreover have "entries_in pr fs q rot = file_entries pr q None content"
        using Some by (simp add: entries_in_def)
      ultimately show ?thesis unfolding e up by simp
    qed
  qed
qed

lemma contiguousD:
  assumes "contiguous fs q" "0 < i" "i \<le> j" "j \<le> maxrotate q" "located fs q i = None"
  shows "located fs q j = None"
proof -
  have "i \<in> set [1..maxrotate q]" using assms(2,3,4) by simp
  then have "list_all (\<lambda>j. located fs q j = None) [i..maxrotate q]"
    using assms(1,5) unfolding contiguous_def list_all_iff by fastforce
  moreover have "j \<in> set [i..maxrotate q]" using assms(3,4) by simp
  ultimately show ?thesis by (simp add: list_all_iff)
qed

lemma backward_walk:
  assumes "\<not> forward q" and "limit = None" and "contiguous fs q" and "0 \<le> rot"
  shows "entries_of (ParseRotatedLog_at pr fs q rot limit)
           = concat (map (entries_in pr fs q) [rot..maxrotate q])"
  using assms
proof (induction pr fs q rot limit rule: walk_induct)
  case (step pr fs q rot limit)
  note bw = step.prems(1) and lim = step.prems(2) and C = step.prems(3) and ge = step.prems(4)
  show ?case
  proof (cases "rot > maxrotate q")
    case True
    then have "entries_of (ParseRotatedLog_at pr fs q rot limit) = []"
      by (subst entries_at) simp
    then show ?thesis using True by simp
  next
    case False
    then have in_range: "\<not> (rot < 0 \<or> rot > maxrotate q)" using ge by simp
    have up: "[rot..maxrotate q] = rot # [rot + 1..maxrotate q]"
      using False upto_rec1 [of rot "maxrotate q"] by simp
    have nx: "next_rotate q rot = rot + 1" "0 \<le> rot + 1"
      using bw ge by (simp_all add: next_rotate_def)
    show ?thesis
    proof (cases "located fs q rot")
      case None
      show ?thesis
      proof (cases "rot > 0")
        case True
        have e: "entries_of (ParseRotatedLog_at pr fs q rot limit) = []"
          using in_range None bw True by (subst entries_at) simp
        have "\<And>j. j \<in> set [rot..maxrotate q] \<Longrightarrow> entries_in pr fs q j = []"
          using contiguousD [OF C True _ _ None] by (simp add: entries_in_def)
        then have "concat (map (entries_in pr fs q) [rot..maxrotate q]) = []"
          by simp
        then show ?thesis using e by simp
      next
        case False
        then have go: "\<not> (\<not> forward q \<and> rot > 0)" by simp
        have e: "entries_of (ParseRotatedLog_at pr fs q rot limit)
                  = entries_of (ParseRotatedLog_at pr fs q (next_rotate q rot) limit)"
          using in_range None False by (subst entries_at) simp
        have "entries_of (ParseRotatedLog_at pr fs q (next_rotate q rot) limit)
                = concat (map (entries_in pr fs q) [rot + 1..maxrotate q])"
          using step.IH(1) [OF in_range None go bw lim C] nx by simp
        moreover have "entries_in pr fs q rot = []" using None by (simp add: entries_in_def)
        ultimately show ?thesis unfolding e up by simp
      qed
    next
      case (Some content)
      have e: "entries_of (ParseRotatedLog_at pr fs q rot limit)
                = file_entries pr q None content
                  @ entries_of (ParseRotatedLog_at pr fs q (next_rotate q rot) None)"
        using in_range Some bw lim
        by (subst entries_at) (simp add: limit_left_None goes_on_simps)
      have "entries_of (ParseRotatedLog_at pr fs q (next_rotate q rot) None)
              = concat (map (entries_in pr fs q) [rot + 1..maxrotate q])"
        using step.IH(2) [OF in_range Some _ bw _ C] lim nx
        by (simp add: limit_left_None goes_on_simps)
      moreover have "entries_in pr fs q rot = file_entries pr q None content"
        using Some by (simp add: entries_in_def)
      ultimately show ?thesis unfolding e up by simp
    qed
  qed
qed

lemma mirror_simps:
  "maxrotate (mirror q) = maxrotate q" "logfile (mirror q) = logfile q"
  "forward (mirror q) = (\<not> forward q)" "parser (mirror q) = parser q"
  "greps (mirror q) = greps q" "keyword (mirror q) = keyword q"
  by (simp_all add: mirror_def parser_def)

lemma mirror_located: "located fs (mirror q) i = located fs q i"
  by (simp add: located_def mirror_simps)

lemma mirror_contiguous: "contiguous fs (mirror q) = contiguous fs q"
  by (simp add: contiguous_def mirror_located mirror_simps)

lemma mirror_cursor_stage:
  assumes "forward q" "cursor q = Some c" "c \<noteq> []" "endcursor q = Some e" "e \<noteq> []"
  shows "cursor_stage pr (mirror q) ls = cursor_stage pr q ls"
  using assms
  by (auto simp: cursor_stage_def conditions_def mirror_def awk_def intro!: filter_cong)

lemma mirror_entries_in:
  assumes "forward q" "cursor q = Some c" "c \<noteq> []" "endcursor q = Some e" "e \<noteq> []"
  shows "entries_in pr fs (mirror q) i = entries_in pr fs q i"
proof -
  have "\<And>content. filtered pr (mirror q) content = filtered pr q content"
    using mirror_cursor_stage [OF assms]
    by (simp add: filtered_def grep_stage_def keyword_stage_def mirror_simps)
  then have "\<And>content. file_entries pr (mirror q) None content = file_entries pr q None content"
    by (simp add: file_entries_def chain_output_def limit_stage_def mirror_simps)
  then show ?thesis
    by (simp add: entries_in_def mirror_located split: option.splits)
qed

text \<open>
  C3, as the code has it. Take a forward query with a cursor and an end cursor, both given
  and not empty, and no limit, over a log set without a gap in its rotation indices. The
  backward query with the two cursors and their inclusivity flags exchanged returns the same
  sequence, in the same order: both results run from the latest entry to the oldest.
\<close>

theorem direction_symmetry:
  assumes "forward q" "cursor q = Some c" "c \<noteq> []" "endcursor q = Some e" "e \<noteq> []"
    and "contiguous fs q"
  shows "entries_of (ParseRotatedLog pr fs q None None)
           = entries_of (ParseRotatedLog pr fs (mirror q) None None)"
proof -
  have f: "entries_of (ParseRotatedLog pr fs q None None)
             = concat (map (entries_in pr fs q) [0..maxrotate q])"
    using forward_walk [OF assms(1) refl, of "maxrotate q" pr fs] assms(1)
    by (simp add: ParseRotatedLog_def)
  have bw: "\<not> forward (mirror q)" using assms(1) by (simp add: mirror_simps)
  have C: "contiguous fs (mirror q)" using assms(6) by (simp add: mirror_contiguous)
  have "entries_of (ParseRotatedLog pr fs (mirror q) None None)
             = concat (map (entries_in pr fs (mirror q)) [0..maxrotate (mirror q)])"
    using backward_walk [OF bw refl C, of 0 pr] bw
    by (simp add: ParseRotatedLog_def)
  also have "\<dots> = concat (map (entries_in pr fs q) [0..maxrotate q])"
  proof -
    have "entries_in pr fs (mirror q) = entries_in pr fs q"
      by (rule ext) (rule mirror_entries_in [OF assms(1-5)])
    then show ?thesis by (simp add: mirror_simps)
  qed
  finally show ?thesis using f by simp
qed

theorem direction_symmetry_witness:
  "contiguous two_file_fs window_query
   \<and> entries_of (ParseRotatedLog example_programs two_file_fs window_query None None)
       = entries_of (ParseRotatedLog example_programs two_file_fs (mirror window_query) None None)"
proof -
  have c: "contiguous two_file_fs window_query"
    by code_simp
  have q: "forward window_query" "cursor window_query = Some ''b''" "''b'' \<noteq> []"
    "endcursor window_query = Some ''d''" "''d'' \<noteq> []"
    by (simp_all add: window_query_def)
  show ?thesis
    using direction_symmetry [OF q c, of example_programs] c by simp
qed

text \<open>
  C3, as stated, fails: the forward query from \<open>b\<close> (inclusive) to \<open>d\<close> (exclusive) and the
  backward query from \<open>d\<close> (exclusive) to \<open>b\<close> (inclusive) both return \<open>c, b\<close>; neither is the
  reverse of the other.
\<close>

theorem forward_not_reverse_of_backward:
  "entries_of (ParseRotatedLog example_programs two_file_fs window_query None None)
     = [Tuple ''c'' ''3'', Tuple ''b'' ''2'']
   \<and> entries_of (ParseRotatedLog example_programs two_file_fs (mirror window_query) None None)
     = [Tuple ''c'' ''3'', Tuple ''b'' ''2'']
   \<and> entries_of (ParseRotatedLog example_programs two_file_fs window_query None None)
     \<noteq> rev (entries_of (ParseRotatedLog example_programs two_file_fs (mirror window_query)
                 None None))"
proof -
  have a: "entries_of (ParseRotatedLog example_programs two_file_fs window_query None None)
     = [Tuple ''c'' ''3'', Tuple ''b'' ''2'']"
    by code_simp
  have b: "entries_of (ParseRotatedLog example_programs two_file_fs (mirror window_query) None None)
     = [Tuple ''c'' ''3'', Tuple ''b'' ''2'']"
    by code_simp
  show ?thesis unfolding a b by simp
qed

end
